theory Spec2Isabelle
  imports Main "HOL-Library.Word"
begin

section \<open>JavaScript strings and numbers\<close>

text \<open>
  A JavaScript string is a sequence of UTF-16 code units. A literal of the source is
  written \<open>js ''...''\<close>.
\<close>

type_synonym jsstring = "16 word list"

definition js :: "string \<Rightarrow> jsstring" where
  "js s = map of_char s"

text \<open>
  \<open>String.prototype.trim\<close> removes the leading and the trailing white space and line
  terminators of ECMAScript: TAB, LF, VT, FF, CR, SPACE, NBSP, the other space separators
  of Unicode, LS, PS and the byte order mark. All of them are single code units.
\<close>

definition is_whitespace :: "16 word \<Rightarrow> bool" where
  "is_whitespace c =
     (c = 0x09 \<or> c = 0x0A \<or> c = 0x0B \<or> c = 0x0C \<or> c = 0x0D \<or> c = 0x20 \<or> c = 0xA0
      \<or> c = 0x1680 \<or> (0x2000 \<le> c \<and> c \<le> 0x200A) \<or> c = 0x2028 \<or> c = 0x2029
      \<or> c = 0x202F \<or> c = 0x205F \<or> c = 0x3000 \<or> c = 0xFEFF)"

definition trim :: "jsstring \<Rightarrow> jsstring" where
  "trim s = rev (dropWhile is_whitespace (rev (dropWhile is_whitespace s)))"

text \<open>
  The decimal digits of a natural number, as a template literal prints the length of an
  array.
\<close>

definition digit :: "nat \<Rightarrow> 16 word" where
  "digit d = 0x30 + of_nat d"

function show_nat :: "nat \<Rightarrow> jsstring" where
  "show_nat n = (if n < 10 then [digit n] else show_nat (n div 10) @ [digit (n mod 10)])"
  by pat_completeness auto
termination
  by (relation "measure id") auto

declare show_nat.simps [simp del]

text \<open>Reading a string of decimal digits back as a number.\<close>

definition digits_value :: "jsstring \<Rightarrow> nat" where
  "digits_value s = foldl (\<lambda>a c. 10 * a + unat (c - 0x30)) 0 s"

section \<open>Data model\<close>

text \<open>
  A job posting as the page reads it (\<open>job.id\<close>, \<open>job.job_title\<close>, ...). The field
  \<open>id\<close> is named \<open>job_id\<close> here. \<open>ats_keywords\<close> is optional: \<open>None\<close> stands for an
  absent (undefined or null) list.
\<close>

record job =
  job_id :: jsstring
  job_title :: jsstring
  employer :: jsstring
  job_description :: jsstring
  salary_range :: jsstring
  date_posted :: jsstring
  source :: jsstring
  ats_keywords :: "jsstring list option"
  employer_website :: jsstring

datatype http_method = GET | POST

record request =
  req_method :: http_method
  url :: jsstring
  body :: "(jsstring \<times> jsstring) list option"

text \<open>What makes axios reject a call: a status outside 2xx, a network error, a timeout.\<close>

datatype error = BadStatus nat | NetworkError | Timeout

text \<open>
  How an awaited call settles. The payload of \<open>Fulfilled\<close> is \<open>response.data\<close>, a sequence
  of postings for the GET; the code never reads it for the POST.
\<close>

datatype outcome = Fulfilled "job list" | Rejected error

datatype toast_kind = ToastError | ToastInfo | ToastSuccess

text \<open>
  What can be observed of a run, in order: the notices, the console, the requests issued
  by an invocation of \<open>handleSearch\<close> and the settling of the call it awaits.
\<close>

datatype obs =
    Toast toast_kind jsstring
  | ConsoleError jsstring error
  | Issue nat request
  | Settled nat outcome

text \<open>The \<open>await\<close> at which an invocation of \<open>handleSearch\<close> is suspended.\<close>

datatype pending = AwaitPost | AwaitGet

text \<open>
  The state of the search page: the four \<open>useState\<close> cells, the suspended invocations of
  \<open>handleSearch\<close> (numbered in the order they started), and the observations so far.
\<close>

record world =
  jobTitle :: jsstring
  jobs :: "job list"
  loading :: bool
  searching :: bool
  inflight :: "nat \<rightharpoonup> pending"
  next_id :: nat
  trace :: "obs list"

definition init :: world where
  "init = \<lparr> jobTitle = [], jobs = [], loading = False, searching = False,
            inflight = Map.empty, next_id = 0, trace = [] \<rparr>"

section \<open>The search action\<close>

text \<open>
  \<open>BACKEND_URL\<close> is \<open>process.env.REACT_APP_BACKEND_URL\<close>: a string when configured,
  undefined otherwise, which a template literal prints as \<open>undefined\<close>.
\<close>

definition API :: "jsstring option \<Rightarrow> jsstring" where
  "API BACKEND_URL =
     (case BACKEND_URL of None \<Rightarrow> js ''undefined'' | Some u \<Rightarrow> u) @ js ''/api''"

definition search_request :: "jsstring option \<Rightarrow> jsstring \<Rightarrow> request" where
  "search_request cfg q =
     \<lparr> req_method = POST, url = API cfg @ js ''/jobs/search'',
       body = Some [(js ''job_title'', q)] \<rparr>"

definition jobs_request :: "jsstring option \<Rightarrow> request" where
  "jobs_request cfg = \<lparr> req_method = GET, url = API cfg @ js ''/jobs'', body = None \<rparr>"

text \<open>
  \<open>handleSearch\<close> up to its first \<open>await\<close>: the validation, \<open>setSearching(true)\<close>, the
  notice and the POST, on which the invocation suspends.
\<close>

definition handleSearch :: "jsstring option \<Rightarrow> world \<Rightarrow> world" where
  "handleSearch cfg w =
     (if trim (jobTitle w) = [] then
        w\<lparr> trace := trace w @ [Toast ToastError (js ''Please enter a job title'')] \<rparr>
      else
        w\<lparr> searching := True,
           trace := trace w @ [Toast ToastInfo (js ''Searching job portals...''),
                               Issue (next_id w) (search_request cfg (jobTitle w))],
           inflight := (inflight w)(next_id w \<mapsto> AwaitPost),
           next_id := Suc (next_id w) \<rparr>)"

text \<open>The \<open>catch\<close> block followed by \<open>finally\<close>; invocation \<open>i\<close> ends.\<close>

definition catch_finally :: "nat \<Rightarrow> error \<Rightarrow> world \<Rightarrow> world" where
  "catch_finally i e w =
     w\<lparr> searching := False,
        trace := trace w @ [ConsoleError (js ''Error searching:'') e,
                            Toast ToastError (js ''Failed to search jobs'')],
        inflight := (inflight w)(i := None) \<rparr>"

text \<open>Invocation \<open>i\<close> resumes after \<open>await axios.post(...)\<close>.\<close>

definition after_post :: "jsstring option \<Rightarrow> nat \<Rightarrow> outcome \<Rightarrow> world \<Rightarrow> world" where
  "after_post cfg i out w =
     (case out of
        Rejected e \<Rightarrow> catch_finally i e w
      | Fulfilled _ \<Rightarrow>
          w\<lparr> trace := trace w @ [Issue i (jobs_request cfg)],
             inflight := (inflight w)(i \<mapsto> AwaitGet) \<rparr>)"

text \<open>
  Invocation \<open>i\<close> resumes after \<open>await axios.get(...)\<close>: \<open>setJobs(response.data)\<close>, the
  success notice with \<open>response.data.length\<close>, then \<open>finally\<close>.
\<close>

definition after_get :: "nat \<Rightarrow> outcome \<Rightarrow> world \<Rightarrow> world" where
  "after_get i out w =
     (case out of
        Rejected e \<Rightarrow> catch_finally i e w
      | Fulfilled d \<Rightarrow>
          w\<lparr> jobs := d,
             searching := False,
             trace := trace w @ [Toast ToastSuccess
                                  (js ''Found '' @ show_nat (length d) @ js '' jobs!'')],
             inflight := (inflight w)(i := None) \<rparr>)"

section \<open>Events\<close>

text \<open>
  What the event loop delivers to the page: \<open>onChange\<close> of the text field with the new
  value, \<open>onKeyPress\<close> of the text field with \<open>e.key\<close>, a click on the search button, and
  the settling of the call that invocation \<open>i\<close> awaits.
\<close>

datatype event =
    Change jsstring
  | KeyPress jsstring
  | Click
  | Settle nat outcome

text \<open>
  Modelled from the spec: the \<open>Button\<close> component (\<open>@/components/ui/button\<close>) is not
  among the sources. The spec has the searching state disable the submit control, and a
  disabled control delivers no click, so \<open>onClick\<close> runs only when \<open>disabled\<close> is false.
  The \<open>Input\<close> has no such property: \<open>onKeyPress\<close> always runs.
\<close>

fun step :: "jsstring option \<Rightarrow> world \<Rightarrow> event \<Rightarrow> world" where
  "step cfg w (Change v) = w\<lparr> jobTitle := v \<rparr>"
| "step cfg w (KeyPress k) = (if k = js ''Enter'' then handleSearch cfg w else w)"
| "step cfg w Click = (if searching w then w else handleSearch cfg w)"
| "step cfg w (Settle i out) =
     (case inflight w i of
        None \<Rightarrow> w
      | Some AwaitPost \<Rightarrow> after_post cfg i out (w\<lparr> trace := trace w @ [Settled i out] \<rparr>)
      | Some AwaitGet \<Rightarrow> after_get i out (w\<lparr> trace := trace w @ [Settled i out] \<rparr>))"

definition run :: "jsstring option \<Rightarrow> event list \<Rightarrow> world \<Rightarrow> world" where
  "run cfg es w = foldl (step cfg) w es"

section \<open>Rendering\<close>

text \<open>The colour of the source label: blue for MyCareersFuture, green for anything else.\<close>

datatype badge = Blue | Green

text \<open>\<open>window.open(url, target)\<close>.\<close>

datatype action = WindowOpen jsstring jsstring

text \<open>
  A card holds the values it shows; the fixed words and symbols around them are left out.
  The description is the full text (the clamp to two lines is styling).
\<close>

record card =
  card_key :: jsstring
  card_title :: jsstring
  card_employer :: jsstring
  card_source :: jsstring
  card_badge :: badge
  card_description :: jsstring
  card_salary :: jsstring
  card_date :: jsstring
  card_keywords :: "jsstring list option"
  card_details :: action

definition render_keywords :: "jsstring list option \<Rightarrow> jsstring list option" where
  "render_keywords kws =
     (case kws of
        None \<Rightarrow> None
      | Some ks \<Rightarrow> if length ks > 0 then Some (take 5 ks) else None)"

definition render_card :: "job \<Rightarrow> card" where
  "render_card j =
     \<lparr> card_key = job_id j,
       card_title = job_title j,
       card_employer = employer j,
       card_source = source j,
       card_badge = (if source j = js ''MyCareersFuture'' then Blue else Green),
       card_description = job_description j,
       card_salary = salary_range j,
       card_date = date_posted j,
       card_keywords = render_keywords (ats_keywords j),
       card_details = WindowOpen (employer_website j) (js ''_blank'') \<rparr>"

datatype results = ResultList jsstring "card list" | Placeholder

record view =
  input_value :: jsstring
  button_disabled :: bool
  button_label :: jsstring
  results_panel :: results

definition render :: "world \<Rightarrow> view" where
  "render w =
     \<lparr> input_value = jobTitle w,
       button_disabled = searching w,
       button_label = (if searching w then js ''Searching...'' else js ''Search Jobs''),
       results_panel =
         (if length (jobs w) > 0 then
            ResultList (show_nat (length (jobs w)) @ js '' Jobs Found'')
                       (map render_card (jobs w))
          else Placeholder) \<rparr>"

section \<open>Sequencing of the network calls\<close>

text \<open>
  A monitor for the network observations of one invocation \<open>i\<close>. The only runs it
  accepts: the search POST is issued; it settles; if it was fulfilled, the GET of the
  result list is issued; that settles. Anything else, such as a GET issued while the POST
  is unsettled or a third request, is a \<open>Violation\<close>.
\<close>

definition is_search_request :: "jsstring option \<Rightarrow> request \<Rightarrow> bool" where
  "is_search_request cfg r =
     (case body r of
        Some [(k, q)] \<Rightarrow> r = search_request cfg q \<and> trim q \<noteq> []
      | _ \<Rightarrow> False)"

datatype progress = Fresh | PostSent | PostOk | GetSent | Finished | Violation

fun concerns :: "nat \<Rightarrow> obs \<Rightarrow> bool" where
  "concerns i (Issue j r) = (j = i)"
| "concerns i (Settled j out) = (j = i)"
| "concerns i (Toast k m) = False"
| "concerns i (ConsoleError m e) = False"

fun advance :: "jsstring option \<Rightarrow> progress \<Rightarrow> obs \<Rightarrow> progress" where
  "advance cfg Fresh (Issue i r) = (if is_search_request cfg r then PostSent else Violation)"
| "advance cfg PostSent (Settled i (Fulfilled d)) = PostOk"
| "advance cfg PostSent (Settled i (Rejected e)) = Finished"
| "advance cfg PostOk (Issue i r) = (if r = jobs_request cfg then GetSent else Violation)"
| "advance cfg GetSent (Settled i out) = Finished"
| "advance cfg p ob = Violation"

definition monitor :: "jsstring option \<Rightarrow> nat \<Rightarrow> progress \<Rightarrow> obs \<Rightarrow> progress" where
  "monitor cfg i p ob = (if concerns i ob then advance cfg p ob else p)"

definition progress :: "jsstring option \<Rightarrow> nat \<Rightarrow> obs list \<Rightarrow> progress" where
  "progress cfg i tr = foldl (monitor cfg i) Fresh tr"

text \<open>What the monitor must say of invocation \<open>i\<close>, given the suspended invocations.\<close>

definition expected :: "world \<Rightarrow> nat \<Rightarrow> progress" where
  "expected w i =
     (case inflight w i of
        Some AwaitPost \<Rightarrow> PostSent
      | Some AwaitGet \<Rightarrow> GetSent
      | None \<Rightarrow> if i < next_id w then Finished else Fresh)"

definition consistent :: "jsstring option \<Rightarrow> world \<Rightarrow> bool" where
  "consistent cfg w \<longleftrightarrow>
     (\<forall>i. progress cfg i (trace w) = expected w i) \<and>
     (\<forall>i. inflight w i \<noteq> None \<longrightarrow> i < next_id w)"

text \<open>Events that do not settle a call of invocation \<open>i\<close>.\<close>

fun settles :: "nat \<Rightarrow> event \<Rightarrow> bool" where
  "settles i (Settle j out) = (j = i)"
| "settles i (Change v) = False"
| "settles i (KeyPress k) = False"
| "settles i Click = False"

definition quiet :: "nat \<Rightarrow> event list \<Rightarrow> bool" where
  "quiet i es = list_all (\<lambda>e. \<not> settles i e) es"

text \<open>
  The states an invocation started by \<open>handleSearch\<close> in \<open>w\<close> passes through, whatever
  else happens in between (\<open>es1\<close>, \<open>es2\<close>): awaiting its POST, and, once that was
  fulfilled with \<open>r\<close>, awaiting its GET.
\<close>

definition awaiting_post :: "jsstring option \<Rightarrow> world \<Rightarrow> event list \<Rightarrow> world" where
  "awaiting_post cfg w es1 = run cfg es1 (handleSearch cfg w)"

definition awaiting_get ::
  "jsstring option \<Rightarrow> world \<Rightarrow> event list \<Rightarrow> job list \<Rightarrow> event list \<Rightarrow> world" where
  "awaiting_get cfg w es1 r es2 =
     run cfg es2 (step cfg (awaiting_post cfg w es1) (Settle (next_id w) (Fulfilled r)))"

section \<open>Sample data\<close>

text \<open>A posting with six keywords, and a page holding it with a query typed in.\<close>

definition demo_job :: job where
  "demo_job = \<lparr> job_id = js ''j1'', job_title = js ''Software Engineer'',
                employer = js ''Acme'', job_description = js ''Build things'',
                salary_range = js ''$5000 - $7000'', date_posted = js ''2024-01-01'',
                source = js ''MyCareersFuture'',
                ats_keywords = Some [js ''a'', js ''b'', js ''c'', js ''d'', js ''e'', js ''f''],
                employer_website = js ''https://example.com/j1'' \<rparr>"

definition demo_world :: world where
  "demo_world = init \<lparr> jobTitle := js '' dev '', jobs := [demo_job] \<rparr>"

section \<open>Auxiliary facts\<close>

lemma trim_empty_iff: "trim s = [] \<longleftrightarrow> (\<forall>c \<in> set s. is_whitespace c)"
proof -
  have "trim s = [] \<longleftrightarrow> dropWhile is_whitespace (rev (dropWhile is_whitespace s)) = []"
    by (simp add: trim_def)
  also have "\<dots> \<longleftrightarrow> (\<forall>c \<in> set (rev (dropWhile is_whitespace s)). is_whitespace c)"
    by (rule dropWhile_eq_Nil_conv)
  also have "\<dots> \<longleftrightarrow> (\<forall>c \<in> set (dropWhile is_whitespace s). is_whitespace c)"
    by (simp only: set_rev)
  also have "\<dots> \<longleftrightarrow> dropWhile is_whitespace s = []"
  proof
    assume all: "\<forall>c \<in> set (dropWhile is_whitespace s). is_whitespace c"
    show "dropWhile is_whitespace s = []"
    proof (rule ccontr)
      assume ne: "dropWhile is_whitespace s \<noteq> []"
      then have "\<not> is_whitespace (hd (dropWhile is_whitespace s))"
        by (rule hd_dropWhile)
      moreover from ne have "hd (dropWhile is_whitespace s) \<in> set (dropWhile is_whitespace s)"
        by (rule hd_in_set)
      ultimately show False using all by blast
    qed
  next
    assume "dropWhile is_whitespace s = []"
    then show "\<forall>c \<in> set (dropWhile is_whitespace s). is_whitespace c"
      by (simp only: set_simps ball_empty)
  qed
  also have "\<dots> \<longleftrightarrow> (\<forall>c \<in> set s. is_whitespace c)"
    by (rule dropWhile_eq_Nil_conv)
  finally show ?thesis .
qed

lemma is_search_request_search [simp]:
  "is_search_request cfg (search_request cfg q) \<longleftrightarrow> trim q \<noteq> []"
  by (simp add: is_search_request_def search_request_def)

lemma progress_append:
  "progress cfg i (tr @ xs) = foldl (monitor cfg i) (progress cfg i tr) xs"
  by (simp add: progress_def)

lemma consistent_init: "consistent cfg init"
  by (simp add: consistent_def init_def progress_def expected_def)

lemma consistent_handleSearch:
  assumes "consistent cfg w"
  shows "consistent cfg (handleSearch cfg w)"
proof (cases "trim (jobTitle w) = []")
  case True
  with assms show ?thesis
    by (simp add: consistent_def handleSearch_def progress_append monitor_def expected_def)
next
  case False
  from assms have fresh: "progress cfg (next_id w) (trace w) = Fresh"
    by (auto simp: consistent_def expected_def split: option.splits)
  from assms False fresh show ?thesis
    by (auto simp: consistent_def handleSearch_def progress_append monitor_def expected_def
             split: option.splits pending.splits)
qed

lemma consistent_settle:
  assumes "consistent cfg w"
  shows "consistent cfg (step cfg w (Settle i out))"
proof (cases "inflight w i")
  case None
  with assms show ?thesis by simp
next
  case (Some p)
  with assms have lt: "i < next_id w" and pr: "progress cfg i (trace w) = expected w i"
    by (auto simp: consistent_def)
  show ?thesis
  proof (cases p)
    case AwaitPost
    with assms Some lt pr show ?thesis
      by (cases out)
         (auto simp: consistent_def after_post_def catch_finally_def progress_append
                     monitor_def expected_def)
  next
    case AwaitGet
    with assms Some lt pr show ?thesis
      by (cases out)
         (auto simp: consistent_def after_get_def catch_finally_def progress_append
                     monitor_def expected_def)
  qed
qed

lemma consistent_step: "consistent cfg w \<Longrightarrow> consistent cfg (step cfg w e)"
proof (cases e)
  case (Change v)
  assume "consistent cfg w"
  with Change show ?thesis by (simp add: consistent_def expected_def)
next
  case (KeyPress k)
  assume "consistent cfg w"
  with KeyPress show ?thesis by (simp add: consistent_handleSearch)
next
  case Click
  assume "consistent cfg w"
  with Click show ?thesis by (simp add: consistent_handleSearch)
next
  case (Settle i out)
  assume "consistent cfg w"
  with Settle show ?thesis using consistent_settle [of cfg w i out] by simp
qed

lemma consistent_run: "consistent cfg w \<Longrightarrow> consistent cfg (run cfg es w)"
  unfolding run_def by (induction es arbitrary: w) (simp_all add: consistent_step)

lemma digits_value_show_nat: "digits_value (show_nat n) = n"
proof (induction n rule: show_nat.induct)
  case (1 n)
  show ?case
  proof (cases "n < 10")
    case True
    then have "unat (of_nat n :: 16 word) = n"
      by (simp add: unat_of_nat)
    with True show ?thesis
      by (simp add: show_nat.simps [of n] digits_value_def digit_def)
  next
    case False
    have "unat (of_nat (n mod 10) :: 16 word) = n mod 10"
      by (simp add: unat_of_nat)
    with False 1 show ?thesis
      by (simp add: show_nat.simps [of n] digits_value_def digit_def)
  qed
qed

lemma step_other:
  assumes "\<not> settles i e" and "i < next_id w"
  shows "inflight (step cfg w e) i = inflight w i \<and> i < next_id (step cfg w e)"
  using assms
  by (cases e) (auto simp: handleSearch_def after_post_def after_get_def catch_finally_def
                     split: option.splits pending.splits outcome.splits)

lemma run_quiet:
  assumes "quiet i es" and "i < next_id w"
  shows "inflight (run cfg es w) i = inflight w i \<and> i < next_id (run cfg es w)"
  using assms
proof (induction es arbitrary: w)
  case Nil
  then show ?case by (simp add: run_def)
next
  case (Cons e es)
  from Cons.prems have e: "\<not> settles i e" and es: "quiet i es"
    by (simp_all add: quiet_def)
  from step_other [OF e Cons.prems(2), of cfg]
  have a: "inflight (step cfg w e) i = inflight w i" and b: "i < next_id (step cfg w e)"
    by simp_all
  from Cons.IH [OF es b] a show ?case by (simp add: run_def)
qed

lemma awaiting_post_inflight:
  assumes "trim (jobTitle w) \<noteq> []" and "quiet (next_id w) es1"
  shows "inflight (awaiting_post cfg w es1) (next_id w) = Some AwaitPost
         \<and> next_id w < next_id (awaiting_post cfg w es1)"
proof -
  from assms(1) have "next_id w < next_id (handleSearch cfg w)"
    and "inflight (handleSearch cfg w) (next_id w) = Some AwaitPost"
    by (simp_all add: handleSearch_def)
  with run_quiet [OF assms(2), of "handleSearch cfg w" cfg]
  show ?thesis by (simp add: awaiting_post_def)
qed

lemma awaiting_get_inflight:
  assumes "trim (jobTitle w) \<noteq> []" and "quiet (next_id w) es1" and "quiet (next_id w) es2"
  shows "inflight (awaiting_get cfg w es1 r es2) (next_id w) = Some AwaitGet
         \<and> next_id w < next_id (awaiting_get cfg w es1 r es2)"
proof -
  let ?v = "step cfg (awaiting_post cfg w es1) (Settle (next_id w) (Fulfilled r))"
  from awaiting_post_inflight [OF assms(1,2), of cfg]
  have "inflight ?v (next_id w) = Some AwaitGet" and "next_id w < next_id ?v"
    by (simp_all add: after_post_def)
  with run_quiet [OF assms(3), of ?v cfg]
  show ?thesis by (simp add: awaiting_get_def)
qed

lemmas demo_simps = js_def trim_def is_whitespace_def run_def init_def handleSearch_def
  after_post_def after_get_def catch_finally_def search_request_def jobs_request_def API_def
  progress_def monitor_def is_search_request_def awaiting_post_def awaiting_get_def quiet_def
  demo_world_def

lemma settle_get_fulfilled:
  assumes "inflight v i = Some AwaitGet"
  shows "step cfg v (Settle i (Fulfilled d)) =
         v\<lparr> jobs := d, searching := False,
            trace := trace v @ [Settled i (Fulfilled d),
                                Toast ToastSuccess
                                  (js ''Found '' @ show_nat (length d) @ js '' jobs!'')],
            inflight := (inflight v)(i := None) \<rparr>"
  using assms by (simp add: after_get_def)

lemma settle_rejected:
  assumes "inflight v i = Some p"
  shows "step cfg v (Settle i (Rejected e)) =
         v\<lparr> searching := False,
            trace := trace v @ [Settled i (Rejected e),
                                ConsoleError (js ''Error searching:'') e,
                                Toast ToastError (js ''Failed to search jobs'')],
            inflight := (inflight v)(i := None) \<rparr>"
  using assms by (cases p) (simp_all add: after_get_def after_post_def catch_finally_def)

lemma show_nat_0: "show_nat 0 = js ''0''"
  by (simp add: show_nat.simps js_def digit_def)

lemma show_nat_2: "show_nat 2 = js ''2''"
  by (simp add: show_nat.simps js_def digit_def)

text \<open>The monitor is not vacuous: a GET issued while the POST is unsettled is refused.\<close>

lemma monitor_refuses_parallel_get:
  "progress cfg 0 [Issue 0 (search_request cfg q), Issue 0 (jobs_request cfg)] = Violation"
  by (simp add: progress_def monitor_def)

section \<open>The claims\<close>

subsection \<open>C1: the two calls are made one after the other\<close>

text \<open>
  Claim C1. A valid submit (the trimmed query is not empty) issues the POST to the
  backend base URL followed by \<open>/api/jobs/search\<close> with the body \<open>{ job_title: query }\<close>
  and suspends on it. The GET to \<open>/api/jobs\<close> is issued in the step in which that POST is
  fulfilled, not before. In every run of the page from its initial state, the network
  observations of each invocation follow the monitor: POST, its settling, then (only if
  it was fulfilled) GET, its settling, and nothing more; so the two calls of one
  invocation are never in flight together and there is no third call.
\<close>

theorem search_calls_in_sequence:
  "(\<forall>j. progress (Some base) j (trace (run (Some base) es init))
          \<in> {Fresh, PostSent, GetSent, Finished})
   \<and> (trim (jobTitle w) \<noteq> [] \<longrightarrow>
        trace (handleSearch (Some base) w) =
          trace w @ [Toast ToastInfo (js ''Searching job portals...''),
                     Issue (next_id w)
                       \<lparr> req_method = POST, url = base @ js ''/api'' @ js ''/jobs/search'',
                         body = Some [(js ''job_title'', jobTitle w)] \<rparr>]
        \<and> inflight (handleSearch (Some base) w) (next_id w) = Some AwaitPost)
   \<and> (inflight w i = Some AwaitPost \<longrightarrow>
        trace (step (Some base) w (Settle i (Fulfilled r))) =
          trace w @ [Settled i (Fulfilled r),
                     Issue i \<lparr> req_method = GET, url = base @ js ''/api'' @ js ''/jobs'',
                               body = None \<rparr>]
        \<and> inflight (step (Some base) w (Settle i (Fulfilled r))) i = Some AwaitGet)"
proof -
  have "consistent (Some base) (run (Some base) es init)"
    by (rule consistent_run) (rule consistent_init)
  then have "\<forall>j. progress (Some base) j (trace (run (Some base) es init))
                 \<in> {Fresh, PostSent, GetSent, Finished}"
    by (auto simp: consistent_def expected_def split: option.splits pending.splits)
  moreover have "trim (jobTitle w) \<noteq> [] \<longrightarrow>
        trace (handleSearch (Some base) w) =
          trace w @ [Toast ToastInfo (js ''Searching job portals...''),
                     Issue (next_id w)
                       \<lparr> req_method = POST, url = base @ js ''/api'' @ js ''/jobs/search'',
                         body = Some [(js ''job_title'', jobTitle w)] \<rparr>]
        \<and> inflight (handleSearch (Some base) w) (next_id w) = Some AwaitPost"
    by (simp add: handleSearch_def search_request_def API_def)
  moreover have "inflight w i = Some AwaitPost \<longrightarrow>
        trace (step (Some base) w (Settle i (Fulfilled r))) =
          trace w @ [Settled i (Fulfilled r),
                     Issue i \<lparr> req_method = GET, url = base @ js ''/api'' @ js ''/jobs'',
                               body = None \<rparr>]
        \<and> inflight (step (Some base) w (Settle i (Fulfilled r))) i = Some AwaitGet"
    by (simp add: after_post_def jobs_request_def API_def)
  ultimately show ?thesis by blast
qed

theorem search_calls_in_sequence_witness:
  "trim (jobTitle (run (Some (js ''http://h'')) [Change (js ''dev''), KeyPress (js ''Enter'')] init)) \<noteq> []
   \<and> inflight (run (Some (js ''http://h'')) [Change (js ''dev''), KeyPress (js ''Enter'')] init) 0
       = Some AwaitPost
   \<and> progress (Some (js ''http://h'')) 0
        (trace (run (Some (js ''http://h''))
           [Change (js ''dev''), KeyPress (js ''Enter''), Settle 0 (Fulfilled []),
            Settle 0 (Fulfilled [])] init)) = Finished
   \<and> trace (step (Some (js ''http://h''))
        (run (Some (js ''http://h'')) [Change (js ''dev''), KeyPress (js ''Enter'')] init)
        (Settle 0 (Fulfilled []))) =
      [Toast ToastInfo (js ''Searching job portals...''),
       Issue 0 \<lparr> req_method = POST, url = js ''http://h/api/jobs/search'',
                 body = Some [(js ''job_title'', js ''dev'')] \<rparr>,
       Settled 0 (Fulfilled []),
       Issue 0 \<lparr> req_method = GET, url = js ''http://h/api/jobs'', body = None \<rparr>]"
proof -
  let ?w = "run (Some (js ''http://h'')) [Change (js ''dev''), KeyPress (js ''Enter'')] init"
  have h1: "trim (jobTitle ?w) \<noteq> []"
    by (simp add: demo_simps)
  have h2: "inflight ?w 0 = Some AwaitPost"
    by (simp add: demo_simps)
  from h1 h2
    search_calls_in_sequence [of "js ''http://h''"
      "[Change (js ''dev''), KeyPress (js ''Enter''), Settle 0 (Fulfilled []),
        Settle 0 (Fulfilled [])]" ?w 0 "[]"]
  show ?thesis
    by (simp add: demo_simps)
qed

subsection \<open>C2: a successful search replaces the result set\<close>

text \<open>
  Claim C2. When the POST and then the GET of a valid submit are fulfilled, whatever
  else happened in between, the result set becomes the list \<open>d\<close> returned by the GET,
  whatever it held before, and the success notice \<open>Found n jobs!\<close> is shown, where \<open>n\<close> is
  the length of \<open>d\<close> in decimal digits; for an empty list the notice is
  \<open>Found 0 jobs!\<close>.
\<close>

theorem success_replaces_results:
  assumes "trim (jobTitle w) \<noteq> []" and "quiet (next_id w) es1" and "quiet (next_id w) es2"
  shows "let v = awaiting_get cfg w es1 r es2;
             v' = step cfg v (Settle (next_id w) (Fulfilled d))
         in jobs v' = d
            \<and> trace v' = trace v @ [Settled (next_id w) (Fulfilled d),
                                    Toast ToastSuccess
                                      (js ''Found '' @ show_nat (length d) @ js '' jobs!'')]
            \<and> digits_value (show_nat (length d)) = length d
            \<and> (d = [] \<longrightarrow> last (trace v') = Toast ToastSuccess (js ''Found 0 jobs!''))"
proof -
  have g: "inflight (awaiting_get cfg w es1 r es2) (next_id w) = Some AwaitGet"
    using awaiting_get_inflight [OF assms] by simp
  have z: "js ''Found '' @ show_nat 0 @ js '' jobs!'' = js ''Found 0 jobs!''"
    by (simp add: show_nat_0) (simp add: js_def)
  show ?thesis
    by (simp add: Let_def settle_get_fulfilled [OF g] digits_value_show_nat z
             del: step.simps)
qed

theorem success_replaces_results_witness:
  "trim (jobTitle demo_world) \<noteq> []
   \<and> quiet (next_id demo_world) [KeyPress (js ''Enter'')]
   \<and> quiet (next_id demo_world) [Change (js ''qa'')]
   \<and> jobs demo_world = [demo_job]
   \<and> jobs (step None
        (awaiting_get None demo_world [KeyPress (js ''Enter'')] [] [Change (js ''qa'')])
        (Settle 0 (Fulfilled []))) = []
   \<and> last (trace (step None
        (awaiting_get None demo_world [KeyPress (js ''Enter'')] [] [Change (js ''qa'')])
        (Settle 0 (Fulfilled [])))) = Toast ToastSuccess (js ''Found 0 jobs!'')"
proof -
  have h1: "trim (jobTitle demo_world) \<noteq> []"
    by (simp add: demo_simps)
  have h2: "quiet (next_id demo_world) [KeyPress (js ''Enter'')]"
    by (simp add: demo_simps)
  have h3: "quiet (next_id demo_world) [Change (js ''qa'')]"
    by (simp add: demo_simps)
  have n: "next_id demo_world = 0" and j: "jobs demo_world = [demo_job]"
    by (simp_all add: demo_simps)
  from success_replaces_results [OF h1 h2 h3, of None "[]" "[]"] h1 h2 h3 n j
  show ?thesis
    by (simp add: Let_def show_nat_0 js_def del: step.simps)
qed

subsection \<open>C3: a failed call leaves the result set alone\<close>

text \<open>
  Claim C3. When the POST of a valid submit is rejected, or its GET is rejected after a
  fulfilled POST, the result set is what it was, the error is written to the console, the
  notice \<open>Failed to search jobs\<close> is shown, and the invocation ends without issuing
  another request or starting another invocation.
\<close>

theorem failure_keeps_results:
  assumes "trim (jobTitle w) \<noteq> []" and "quiet (next_id w) es1" and "quiet (next_id w) es2"
  shows "let i = next_id w;
             v1 = awaiting_post cfg w es1; v1' = step cfg v1 (Settle i (Rejected e));
             v2 = awaiting_get cfg w es1 r es2; v2' = step cfg v2 (Settle i (Rejected e))
         in jobs v1' = jobs v1 \<and> jobs v2' = jobs v2
            \<and> trace v1' = trace v1 @ [Settled i (Rejected e),
                                      ConsoleError (js ''Error searching:'') e,
                                      Toast ToastError (js ''Failed to search jobs'')]
            \<and> trace v2' = trace v2 @ [Settled i (Rejected e),
                                      ConsoleError (js ''Error searching:'') e,
                                      Toast ToastError (js ''Failed to search jobs'')]
            \<and> inflight v1' = (inflight v1)(i := None) \<and> next_id v1' = next_id v1
            \<and> inflight v2' = (inflight v2)(i := None) \<and> next_id v2' = next_id v2
            \<and> jobs (run cfg [Settle i (Rejected e)] (handleSearch cfg w)) = jobs w
            \<and> jobs (run cfg [Settle i (Fulfilled r), Settle i (Rejected e)]
                       (handleSearch cfg w)) = jobs w"
proof -
  have p: "inflight (awaiting_post cfg w es1) (next_id w) = Some AwaitPost"
    using awaiting_post_inflight [OF assms(1,2)] by simp
  have g: "inflight (awaiting_get cfg w es1 r es2) (next_id w) = Some AwaitGet"
    using awaiting_get_inflight [OF assms] by simp
  have a: "jobs (run cfg [Settle (next_id w) (Rejected e)] (handleSearch cfg w)) = jobs w"
    using assms(1) by (simp add: run_def handleSearch_def after_post_def catch_finally_def)
  have b: "jobs (run cfg [Settle (next_id w) (Fulfilled r), Settle (next_id w) (Rejected e)]
                   (handleSearch cfg w)) = jobs w"
    using assms(1)
    by (simp add: run_def handleSearch_def after_post_def after_get_def catch_finally_def)
  show ?thesis
    by (simp add: Let_def settle_rejected [OF p] settle_rejected [OF g] a b
             del: step.simps)
qed

theorem failure_keeps_results_witness:
  "trim (jobTitle demo_world) \<noteq> []
   \<and> quiet (next_id demo_world) []
   \<and> jobs (run None [Settle 0 (Rejected NetworkError)] (handleSearch None demo_world))
       = [demo_job]
   \<and> jobs (run None [Settle 0 (Fulfilled []), Settle 0 (Rejected (BadStatus 500))]
             (handleSearch None demo_world)) = [demo_job]
   \<and> trace (step None (awaiting_get None demo_world [] [] []) (Settle 0 (Rejected (BadStatus 500))))
       = [Toast ToastInfo (js ''Searching job portals...''),
          Issue 0 \<lparr> req_method = POST, url = js ''undefined/api/jobs/search'',
                    body = Some [(js ''job_title'', js '' dev '')] \<rparr>,
          Settled 0 (Fulfilled []),
          Issue 0 \<lparr> req_method = GET, url = js ''undefined/api/jobs'', body = None \<rparr>,
          Settled 0 (Rejected (BadStatus 500)),
          ConsoleError (js ''Error searching:'') (BadStatus 500),
          Toast ToastError (js ''Failed to search jobs'')]"
proof -
  have h1: "trim (jobTitle demo_world) \<noteq> []"
    by (simp add: demo_simps)
  have h2: "quiet (next_id demo_world) []"
    by (simp add: demo_simps)
  have n: "next_id demo_world = 0" and j: "jobs demo_world = [demo_job]"
    by (simp_all add: demo_simps)
  have t: "trace (awaiting_get None demo_world [] [] [])
       = [Toast ToastInfo (js ''Searching job portals...''),
          Issue 0 \<lparr> req_method = POST, url = js ''undefined/api/jobs/search'',
                    body = Some [(js ''job_title'', js '' dev '')] \<rparr>,
          Settled 0 (Fulfilled []),
          Issue 0 \<lparr> req_method = GET, url = js ''undefined/api/jobs'', body = None \<rparr>]"
    by (simp add: demo_simps)
  from failure_keeps_results [OF h1 h2 h2, of None "BadStatus 500" "[]"]
  have "trace (step None (awaiting_get None demo_world [] [] [])
                (Settle 0 (Rejected (BadStatus 500))))
        = trace (awaiting_get None demo_world [] [] [])
          @ [Settled 0 (Rejected (BadStatus 500)),
             ConsoleError (js ''Error searching:'') (BadStatus 500),
             Toast ToastError (js ''Failed to search jobs'')]"
    by (simp add: Let_def n del: step.simps)
  moreover from failure_keeps_results [OF h1 h2 h2, of None "NetworkError" "[]"]
  have "jobs (run None [Settle 0 (Rejected NetworkError)] (handleSearch None demo_world))
       = [demo_job]"
    by (simp add: Let_def n j)
  moreover from failure_keeps_results [OF h1 h2 h2, of None "BadStatus 500" "[]"]
  have "jobs (run None [Settle 0 (Fulfilled []), Settle 0 (Rejected (BadStatus 500))]
             (handleSearch None demo_world)) = [demo_job]"
    by (simp add: Let_def n j)
  ultimately show ?thesis using h1 h2 t by simp
qed

subsection \<open>C4: an empty query is refused\<close>

text \<open>
  Claim C4. When the query is empty or holds white space only, its trimmed form is
  empty and the action does nothing but show the notice \<open>Please enter a job title\<close>: no
  request is issued, and the result set, the searching flag and the suspended invocations
  are what they were. This holds for the Enter key and for a click on the enabled button.
\<close>

theorem empty_query_rejected:
  assumes "list_all is_whitespace (jobTitle w)"
  shows "trim (jobTitle w) = []
         \<and> handleSearch cfg w =
             w\<lparr> trace := trace w @ [Toast ToastError (js ''Please enter a job title'')] \<rparr>
         \<and> step cfg w (KeyPress (js ''Enter'')) = handleSearch cfg w
         \<and> step cfg w Click = (if searching w then w else handleSearch cfg w)"
proof -
  from assms have "trim (jobTitle w) = []"
    by (simp add: trim_empty_iff list_all_iff)
  then show ?thesis
    by (simp add: handleSearch_def)
qed

theorem empty_query_rejected_witness:
  "list_all is_whitespace (jobTitle (init \<lparr> jobTitle := [0x20, 0x09, 0x3000] \<rparr>))
   \<and> trace (step None (init \<lparr> jobTitle := [0x20, 0x09, 0x3000] \<rparr>) Click)
       = [Toast ToastError (js ''Please enter a job title'')]
   \<and> jobs (step None (init \<lparr> jobTitle := [0x20, 0x09, 0x3000] \<rparr>) Click) = []
   \<and> \<not> searching (step None (init \<lparr> jobTitle := [0x20, 0x09, 0x3000] \<rparr>) Click)
   \<and> inflight (step None (init \<lparr> jobTitle := [0x20, 0x09, 0x3000] \<rparr>) Click) 0 = None"
proof -
  have h: "list_all is_whitespace (jobTitle (init \<lparr> jobTitle := [0x20, 0x09, 0x3000] \<rparr>))"
    by (simp add: is_whitespace_def)
  have s: "\<not> searching (init \<lparr> jobTitle := [0x20, 0x09, 0x3000] \<rparr>)"
    by (simp add: init_def)
  from empty_query_rejected [OF h, of None] h s show ?thesis
    by (simp add: init_def del: step.simps)
qed

subsection \<open>C5: the searching flag\<close>

text \<open>
  Claim C5. A valid submit sets the searching flag; the flag is still set while the
  uninterrupted sequence awaits its GET; it is cleared when the POST is rejected and when
  the GET settles, fulfilled or rejected. In every state the rendered button is disabled
  exactly when the flag is set.
\<close>

theorem searching_flag_lifecycle:
  assumes "trim (jobTitle w) \<noteq> []" and "quiet (next_id w) es1" and "quiet (next_id w) es2"
  shows "searching (handleSearch cfg w)
         \<and> searching (awaiting_get cfg w [] r [])
         \<and> \<not> searching (step cfg (awaiting_post cfg w es1) (Settle (next_id w) (Rejected e)))
         \<and> \<not> searching (step cfg (awaiting_get cfg w es1 r es2) (Settle (next_id w) out))
         \<and> button_disabled (render v) = searching v"
proof -
  have p: "inflight (awaiting_post cfg w es1) (next_id w) = Some AwaitPost"
    using awaiting_post_inflight [OF assms(1,2)] by simp
  have g: "inflight (awaiting_get cfg w es1 r es2) (next_id w) = Some AwaitGet"
    using awaiting_get_inflight [OF assms] by simp
  have a: "searching (handleSearch cfg w)" and b: "searching (awaiting_get cfg w [] r [])"
    using assms(1)
    by (simp_all add: handleSearch_def awaiting_get_def awaiting_post_def run_def after_post_def)
  have c: "\<not> searching (step cfg (awaiting_get cfg w es1 r es2) (Settle (next_id w) out))"
    by (cases out) (simp_all add: settle_get_fulfilled [OF g] settle_rejected [OF g]
                              del: step.simps)
  show ?thesis
    by (simp add: a b c settle_rejected [OF p] render_def del: step.simps)
qed

theorem searching_flag_lifecycle_witness:
  "trim (jobTitle demo_world) \<noteq> [] \<and> quiet (next_id demo_world) []
   \<and> \<not> searching demo_world
   \<and> searching (handleSearch None demo_world)
   \<and> \<not> searching (step None (awaiting_post None demo_world []) (Settle 0 (Rejected Timeout)))
   \<and> \<not> searching (step None (awaiting_get None demo_world [] [] []) (Settle 0 (Fulfilled [])))
   \<and> button_disabled (render (handleSearch None demo_world))"
proof -
  have h1: "trim (jobTitle demo_world) \<noteq> []"
    by (simp add: demo_simps)
  have h2: "quiet (next_id demo_world) []"
    by (simp add: demo_simps)
  have n: "next_id demo_world = 0" and s: "\<not> searching demo_world"
    by (simp_all add: demo_simps)
  from searching_flag_lifecycle [OF h1 h2 h2, of None "[]" Timeout "Fulfilled []"
      "handleSearch None demo_world"] h1 h2 n s
  show ?thesis
    by (simp del: step.simps)
qed

subsection \<open>C6: one card per posting\<close>

text \<open>
  Claim C6. A non-empty result set of \<open>N\<close> postings is rendered as the heading
  \<open>N Jobs Found\<close> and \<open>N\<close> cards, in order. Card \<open>k\<close> shows the title, employer,
  description, salary range, posting date and source of posting \<open>k\<close>, the first five
  keywords when the keyword list is present and not empty (no tags otherwise), and its
  action opens the posting's \<open>employer_website\<close> in \<open>_blank\<close>.
\<close>

theorem result_cards:
  assumes "jobs w \<noteq> []"
  shows "\<exists>cards.
           results_panel (render w) =
             ResultList (show_nat (length (jobs w)) @ js '' Jobs Found'') cards
           \<and> digits_value (show_nat (length (jobs w))) = length (jobs w)
           \<and> length cards = length (jobs w)
           \<and> (\<forall>k < length (jobs w).
                 card_key (cards ! k) = job_id (jobs w ! k)
               \<and> card_title (cards ! k) = job_title (jobs w ! k)
               \<and> card_employer (cards ! k) = employer (jobs w ! k)
               \<and> card_description (cards ! k) = job_description (jobs w ! k)
               \<and> card_salary (cards ! k) = salary_range (jobs w ! k)
               \<and> card_date (cards ! k) = date_posted (jobs w ! k)
               \<and> card_source (cards ! k) = source (jobs w ! k)
               \<and> card_keywords (cards ! k) =
                    (case ats_keywords (jobs w ! k) of
                       None \<Rightarrow> None
                     | Some ks \<Rightarrow> if ks = [] then None else Some (take 5 ks))
               \<and> (\<forall>ts. card_keywords (cards ! k) = Some ts \<longrightarrow> length ts \<le> 5)
               \<and> card_details (cards ! k) =
                    WindowOpen (employer_website (jobs w ! k)) (js ''_blank''))"
proof -
  have kw: "\<And>j ts. card_keywords (render_card j) = Some ts \<Longrightarrow> length ts \<le> 5"
    by (auto simp: render_card_def render_keywords_def split: option.splits if_splits)
  have "results_panel (render w) =
          ResultList (show_nat (length (jobs w)) @ js '' Jobs Found'')
                     (map render_card (jobs w))"
    using assms by (simp add: render_def)
  moreover have "\<forall>k < length (jobs w).
       card_keywords (map render_card (jobs w) ! k) =
         (case ats_keywords (jobs w ! k) of
            None \<Rightarrow> None
          | Some ks \<Rightarrow> if ks = [] then None else Some (take 5 ks))"
    by (simp add: render_card_def render_keywords_def split: option.splits)
  moreover have "\<forall>k < length (jobs w). \<forall>ts.
       card_keywords (map render_card (jobs w) ! k) = Some ts \<longrightarrow> length ts \<le> 5"
    using kw by simp
  moreover have "\<forall>k < length (jobs w).
       card_key (map render_card (jobs w) ! k) = job_id (jobs w ! k)
     \<and> card_title (map render_card (jobs w) ! k) = job_title (jobs w ! k)
     \<and> card_employer (map render_card (jobs w) ! k) = employer (jobs w ! k)
     \<and> card_description (map render_card (jobs w) ! k) = job_description (jobs w ! k)
     \<and> card_salary (map render_card (jobs w) ! k) = salary_range (jobs w ! k)
     \<and> card_date (map render_card (jobs w) ! k) = date_posted (jobs w ! k)
     \<and> card_source (map render_card (jobs w) ! k) = source (jobs w ! k)
     \<and> card_details (map render_card (jobs w) ! k) =
          WindowOpen (employer_website (jobs w ! k)) (js ''_blank'')"
    by (simp add: render_card_def)
  ultimately show ?thesis
    by (intro exI [of _ "map render_card (jobs w)"]) (simp add: digits_value_show_nat)
qed

theorem result_cards_witness:
  "jobs (init \<lparr> jobs := [demo_job, demo_job \<lparr> ats_keywords := None \<rparr>] \<rparr>) \<noteq> []
   \<and> (\<exists>cards.
        results_panel (render (init \<lparr> jobs := [demo_job, demo_job \<lparr> ats_keywords := None \<rparr>] \<rparr>))
          = ResultList (js ''2 Jobs Found'') cards
        \<and> length cards = 2
        \<and> card_title (cards ! 0) = js ''Software Engineer''
        \<and> card_keywords (cards ! 0) = Some [js ''a'', js ''b'', js ''c'', js ''d'', js ''e'']
        \<and> card_keywords (cards ! 1) = None
        \<and> card_details (cards ! 1) = WindowOpen (js ''https://example.com/j1'') (js ''_blank''))"
proof -
  let ?w = "init \<lparr> jobs := [demo_job, demo_job \<lparr> ats_keywords := None \<rparr>] \<rparr>"
  have h: "jobs ?w \<noteq> []"
    by simp
  from result_cards [OF h] obtain cards where
    p: "results_panel (render ?w) =
          ResultList (show_nat (length (jobs ?w)) @ js '' Jobs Found'') cards"
    and l: "length cards = length (jobs ?w)"
    and a: "\<forall>k < length (jobs ?w).
                 card_key (cards ! k) = job_id (jobs ?w ! k)
               \<and> card_title (cards ! k) = job_title (jobs ?w ! k)
               \<and> card_employer (cards ! k) = employer (jobs ?w ! k)
               \<and> card_description (cards ! k) = job_description (jobs ?w ! k)
               \<and> card_salary (cards ! k) = salary_range (jobs ?w ! k)
               \<and> card_date (cards ! k) = date_posted (jobs ?w ! k)
               \<and> card_source (cards ! k) = source (jobs ?w ! k)
               \<and> card_keywords (cards ! k) =
                    (case ats_keywords (jobs ?w ! k) of
                       None \<Rightarrow> None
                     | Some ks \<Rightarrow> if ks = [] then None else Some (take 5 ks))
               \<and> (\<forall>ts. card_keywords (cards ! k) = Some ts \<longrightarrow> length ts \<le> 5)
               \<and> card_details (cards ! k) =
                    WindowOpen (employer_website (jobs ?w ! k)) (js ''_blank'')"
    by blast
  from a [rule_format, of 0]
  have k0: "card_title (cards ! 0) = js ''Software Engineer''"
    "card_keywords (cards ! 0) = Some [js ''a'', js ''b'', js ''c'', js ''d'', js ''e'']"
    by (simp_all add: demo_job_def)
  from a [rule_format, of 1]
  have k1: "card_keywords (cards ! 1) = None"
    "card_details (cards ! 1) = WindowOpen (js ''https://example.com/j1'') (js ''_blank'')"
    by (simp_all add: demo_job_def)
  have len: "length (jobs ?w) = 2"
    by simp
  have hd: "show_nat (length (jobs ?w)) @ js '' Jobs Found'' = js ''2 Jobs Found''"
    unfolding len show_nat_2 by (simp add: js_def)
  note p [unfolded hd] l [unfolded len]
  with k0 k1 h show ?thesis
    by blast
qed

subsection \<open>C7: the placeholder\<close>

text \<open>
  Claim C7. The results panel is the placeholder exactly when the result set has length
  zero. It is the placeholder in the initial state, and after a search whose GET returned
  the empty list the panel equals that of the initial state: the page keeps no record of
  whether a search has completed.
\<close>

theorem placeholder_when_empty:
  assumes "trim (jobTitle w) \<noteq> []" and "quiet (next_id w) es1" and "quiet (next_id w) es2"
  shows "(results_panel (render v) = Placeholder \<longleftrightarrow> length (jobs v) = 0)
         \<and> results_panel (render init) = Placeholder
         \<and> results_panel (render (step cfg (awaiting_get cfg w es1 r es2)
                                     (Settle (next_id w) (Fulfilled []))))
             = results_panel (render init)"
proof -
  have g: "inflight (awaiting_get cfg w es1 r es2) (next_id w) = Some AwaitGet"
    using awaiting_get_inflight [OF assms] by simp
  show ?thesis
    by (simp add: render_def init_def settle_get_fulfilled [OF g] del: step.simps)
qed

theorem placeholder_when_empty_witness:
  "trim (jobTitle demo_world) \<noteq> [] \<and> quiet (next_id demo_world) []
   \<and> results_panel (render demo_world) \<noteq> Placeholder
   \<and> results_panel (render (step None (awaiting_get None demo_world [] [] [])
                               (Settle 0 (Fulfilled [])))) = Placeholder
   \<and> results_panel (render init) = Placeholder"
proof -
  have h1: "trim (jobTitle demo_world) \<noteq> []"
    by (simp add: demo_simps)
  have h2: "quiet (next_id demo_world) []"
    by (simp add: demo_simps)
  have n: "next_id demo_world = 0" and j: "length (jobs demo_world) \<noteq> 0"
    by (simp_all add: demo_simps)
  from placeholder_when_empty [OF h1 h2 h2, of demo_world None "[]"] h1 h2 n j
  show ?thesis
    by (simp del: step.simps)
qed

subsection \<open>C8: click and Enter run the same action\<close>

text \<open>
  Claim C8. Pressing Enter in the text field runs \<open>handleSearch\<close>, and so does a click
  on the button whenever the button is enabled; a click on the disabled button does
  nothing. \<open>handleSearch\<close> itself does not look at the searching flag: started with the
  flag set or cleared it does the same, so the disabled button is the only guard against
  a double submit.
\<close>

theorem click_and_enter_same_action:
  "step cfg w (KeyPress (js ''Enter'')) = handleSearch cfg w
   \<and> (\<not> searching w \<longrightarrow> step cfg w Click = handleSearch cfg w)
   \<and> (searching w \<longrightarrow> step cfg w Click = w)
   \<and> handleSearch cfg (w\<lparr> searching := b \<rparr>) =
       (handleSearch cfg w)\<lparr> searching := (if trim (jobTitle w) = [] then b else True) \<rparr>"
  by (simp add: handleSearch_def)

theorem click_and_enter_same_action_witness:
  "\<not> searching demo_world
   \<and> step None demo_world Click = step None demo_world (KeyPress (js ''Enter''))
   \<and> searching (handleSearch None demo_world)
   \<and> step None (handleSearch None demo_world) Click = handleSearch None demo_world
   \<and> next_id (step None (handleSearch None demo_world) (KeyPress (js ''Enter''))) = 2"
proof -
  have a: "\<not> searching demo_world" and b: "searching (handleSearch None demo_world)"
    by (simp_all add: demo_simps)
  have c: "next_id (handleSearch None (handleSearch None demo_world)) = 2"
    by (simp add: demo_simps)
  from click_and_enter_same_action [of None demo_world False]
       click_and_enter_same_action [of None "handleSearch None demo_world" False] a b c
  show ?thesis
    by (simp del: step.simps)
qed

subsection \<open>C9: the query is sent untrimmed\<close>

text \<open>
  Claim C9. On a valid submit the body of the POST holds the query as typed, with its
  leading and trailing white space; the trimmed query is used for the validation only,
  so when trimming changes the query the body differs from the trimmed query.
\<close>

theorem raw_query_sent:
  assumes "trim (jobTitle w) \<noteq> []"
  shows "\<exists>r. trace (handleSearch cfg w) =
               trace w @ [Toast ToastInfo (js ''Searching job portals...''),
                          Issue (next_id w) r]
             \<and> body r = Some [(js ''job_title'', jobTitle w)]
             \<and> (trim (jobTitle w) \<noteq> jobTitle w \<longrightarrow>
                  body r \<noteq> Some [(js ''job_title'', trim (jobTitle w))])"
  using assms by (simp add: handleSearch_def search_request_def)

theorem raw_query_sent_witness:
  "trim (jobTitle demo_world) \<noteq> []
   \<and> trim (jobTitle demo_world) = js ''dev''
   \<and> trim (jobTitle demo_world) \<noteq> jobTitle demo_world
   \<and> (\<exists>r. last (trace (handleSearch None demo_world)) = Issue 0 r
          \<and> body r = Some [(js ''job_title'', js '' dev '')])"
proof -
  have h: "trim (jobTitle demo_world) \<noteq> []" and t: "trim (jobTitle demo_world) = js ''dev''"
    by (simp_all add: demo_simps)
  have n: "next_id demo_world = 0" and q: "jobTitle demo_world = js '' dev ''"
    by (simp_all add: demo_simps)
  have d: "trim (jobTitle demo_world) \<noteq> jobTitle demo_world"
    by (simp add: demo_simps)
  from raw_query_sent [OF h, of None] obtain r where
    "trace (handleSearch None demo_world) =
       trace demo_world @ [Toast ToastInfo (js ''Searching job portals...''), Issue 0 r]"
    and "body r = Some [(js ''job_title'', js '' dev '')]"
    by (auto simp: n q)
  with h t d show ?thesis
    by auto
qed

subsection \<open>C10: Enter starts a second search while one is in flight\<close>

text \<open>
  Claim C10. While the searching flag is set, a click does nothing, but Enter with a
  valid query starts a new invocation and issues its POST while every invocation already
  suspended stays suspended. There is a sequence of inputs from the initial state after
  which two invocations await their POST at once.
\<close>

theorem enter_starts_second_search:
  "(searching w \<and> trim (jobTitle w) \<noteq> [] \<and> inflight w i = Some p \<and> i < next_id w \<longrightarrow>
      step cfg w Click = w
      \<and> inflight (step cfg w (KeyPress (js ''Enter''))) i = Some p
      \<and> inflight (step cfg w (KeyPress (js ''Enter''))) (next_id w) = Some AwaitPost
      \<and> trace (step cfg w (KeyPress (js ''Enter''))) =
          trace w @ [Toast ToastInfo (js ''Searching job portals...''),
                     Issue (next_id w) (search_request cfg (jobTitle w))])
   \<and> (\<exists>es. searching (run cfg es init)
          \<and> inflight (run cfg es init) 0 = Some AwaitPost
          \<and> inflight (run cfg es init) 1 = Some AwaitPost
          \<and> progress cfg 0 (trace (run cfg es init)) = PostSent
          \<and> progress cfg 1 (trace (run cfg es init)) = PostSent)"
proof -
  let ?es = "[Change (js ''dev''), KeyPress (js ''Enter''), KeyPress (js ''Enter'')]"
  have "searching (run cfg ?es init)
          \<and> inflight (run cfg ?es init) 0 = Some AwaitPost
          \<and> inflight (run cfg ?es init) 1 = Some AwaitPost
          \<and> progress cfg 0 (trace (run cfg ?es init)) = PostSent
          \<and> progress cfg 1 (trace (run cfg ?es init)) = PostSent"
    by (simp add: demo_simps)
  then have "\<exists>es. searching (run cfg es init)
          \<and> inflight (run cfg es init) 0 = Some AwaitPost
          \<and> inflight (run cfg es init) 1 = Some AwaitPost
          \<and> progress cfg 0 (trace (run cfg es init)) = PostSent
          \<and> progress cfg 1 (trace (run cfg es init)) = PostSent"
    by (rule exI)
  then show ?thesis
    by (auto simp: handleSearch_def)
qed

theorem enter_starts_second_search_witness:
  "searching (run None [Change (js ''dev''), KeyPress (js ''Enter'')] init)
   \<and> trim (jobTitle (run None [Change (js ''dev''), KeyPress (js ''Enter'')] init)) \<noteq> []
   \<and> inflight (run None [Change (js ''dev''), KeyPress (js ''Enter'')] init) 0 = Some AwaitPost
   \<and> 0 < next_id (run None [Change (js ''dev''), KeyPress (js ''Enter'')] init)
   \<and> inflight (step None (run None [Change (js ''dev''), KeyPress (js ''Enter'')] init)
                 (KeyPress (js ''Enter''))) 0 = Some AwaitPost
   \<and> inflight (step None (run None [Change (js ''dev''), KeyPress (js ''Enter'')] init)
                 (KeyPress (js ''Enter''))) 1 = Some AwaitPost
   \<and> step None (run None [Change (js ''dev''), KeyPress (js ''Enter'')] init) Click
       = run None [Change (js ''dev''), KeyPress (js ''Enter'')] init"
proof -
  let ?w = "run None [Change (js ''dev''), KeyPress (js ''Enter'')] init"
  have h: "searching ?w \<and> trim (jobTitle ?w) \<noteq> [] \<and> inflight ?w 0 = Some AwaitPost
           \<and> 0 < next_id ?w"
    by (simp add: demo_simps)
  have n: "next_id ?w = 1"
    by (simp add: demo_simps)
  from enter_starts_second_search [of ?w 0 AwaitPost None] h n
  show ?thesis
    by (simp del: step.simps)
qed

end
